theory Spec2Isabelle
  imports Main
begin

section \<open>The parsed diff\<close>

text \<open>
  Modelled from the spec: the types of the diff parsing library (Line, Hunk,
  PatchedFile), which the repository imports and \<^verbatim>\<open>review.py\<close> reads through
  \<^verbatim>\<open>is_added\<close>, \<^verbatim>\<open>is_removed\<close>, \<^verbatim>\<open>target_line_no\<close>, \<^verbatim>\<open>diff_line_no\<close>,
  \<^verbatim>\<open>target_file\<close> and iteration. A line has a kind among context, added and
  removed, a target line number (populated for context and added lines only,
  hence an option) and a diff line number; a hunk is its lines, a file its
  target path and its hunks.
\<close>

datatype line_kind = Context | Added | Removed

record line =
  kind :: line_kind
  target_line_no :: "int option"
  diff_line_no :: int

definition is_added :: "line \<Rightarrow> bool" where
  "is_added l = (kind l = Added)"

definition is_removed :: "line \<Rightarrow> bool" where
  "is_removed l = (kind l = Removed)"

type_synonym hunk = "line list"

record patched_file =
  target_file :: string
  hunks :: "hunk list"

type_synonym diff = "patched_file list"

text \<open>\<^verbatim>\<open>file.target_file[2:]\<close>: the target path without its two-character prefix.\<close>

definition filename :: "patched_file \<Rightarrow> string" where
  "filename f = drop 2 (target_file f)"

text \<open>All lines of a file, in the order the nested loops visit them.\<close>

definition file_lines :: "patched_file \<Rightarrow> line list" where
  "file_lines f = concat (hunks f)"

section \<open>Errors\<close>

text \<open>
  The exceptions the modelled functions can raise, as values: a \<^verbatim>\<open>TypeError\<close>
  (arithmetic on \<^verbatim>\<open>None\<close>), a \<^verbatim>\<open>ValueError\<close> (unpacking too few values, an
  empty path given to \<^verbatim>\<open>os.path.relpath\<close>, a string \<^verbatim>\<open>int()\<close> refuses) and a
  \<^verbatim>\<open>KeyError\<close> with the missing key.
\<close>

datatype value_error = NotEnoughValues nat | NoPathSpecified | InvalidIntLiteral string

datatype key = PathKey string | LineKey int

datatype error = TypeError | ValueError value_error | KeyError key

section \<open>make_file_line_lookup\<close>

text \<open>
  The constant the spec calls \<^verbatim>\<open>HEADER_OFFSET\<close>.
\<close>

definition DIFF_HEADER_LINE_LENGTH :: int where
  "DIFF_HEADER_LINE_LENGTH = 5"

text \<open>
  The inner dictionary is keyed by whatever \<^verbatim>\<open>line.target_line_no\<close> holds, so
  its keys are optional integers; the outer one is keyed by the file name.
\<close>

type_synonym line_table = "int option \<rightharpoonup> int"

type_synonym lookup_table = "string \<rightharpoonup> line_table"

text \<open>\<^verbatim>\<open>for line in hunk: if not line.is_removed: lookup[filename][...] = ...\<close>\<close>

fun lookup_hunk :: "line list \<Rightarrow> line_table \<Rightarrow> line_table" where
  "lookup_hunk [] t = t"
| "lookup_hunk (l # ls) t =
     lookup_hunk ls
       (if \<not> is_removed l
        then t(target_line_no l \<mapsto> diff_line_no l - DIFF_HEADER_LINE_LENGTH)
        else t)"

text \<open>\<^verbatim>\<open>for hunk in file: ...\<close>\<close>

fun lookup_file :: "hunk list \<Rightarrow> line_table \<Rightarrow> line_table" where
  "lookup_file [] t = t"
| "lookup_file (h # hs) t = lookup_file hs (lookup_hunk h t)"

text \<open>
  \<^verbatim>\<open>for file in diff: lookup[filename] = {}; ...\<close>. The file's table starts
  empty (also when the name was seen before) and nothing reads it before the
  file's loops end, so the model stores the finished table in one step.
\<close>

fun lookup_diff :: "diff \<Rightarrow> lookup_table \<Rightarrow> lookup_table" where
  "lookup_diff [] lk = lk"
| "lookup_diff (f # fs) lk =
     lookup_diff fs (lk(filename f \<mapsto> lookup_file (hunks f) Map.empty))"

definition make_file_line_lookup :: "diff \<Rightarrow> lookup_table" where
  "make_file_line_lookup d = lookup_diff d Map.empty"

section \<open>get_line_ranges\<close>

text \<open>
  \<^verbatim>\<open>itertools.groupby(iterable, key)\<close>: the maximal runs of consecutive elements
  with equal keys, in order.
\<close>

function groupby :: "('a \<Rightarrow> 'k) \<Rightarrow> 'a list \<Rightarrow> 'a list list" where
  "groupby key [] = []"
| "groupby key (x # xs) =
     (x # takeWhile (\<lambda>y. key y = key x) xs)
       # groupby key (dropWhile (\<lambda>y. key y = key x) xs)"
  by pat_completeness auto
termination
  by (relation "measure (\<lambda>(key, xs). length xs)")
     (auto simp: length_dropWhile_le less_Suc_eq_le)

text \<open>The key of the grouping, \<^verbatim>\<open>lambda ix: ix[0] - ix[1]\<close>, on a pair of \<^verbatim>\<open>enumerate\<close>.\<close>

definition index_minus_value :: "nat \<times> int \<Rightarrow> int" where
  "index_minus_value ix = int (fst ix) - snd ix"

text \<open>
  The grouping loop for one file: \<^verbatim>\<open>groups = list(map(itemgetter(1), group))\<close> and
  the emitted pair \<^verbatim>\<open>[groups[0], groups[-1]]\<close> (a group is never empty).
\<close>

definition line_ranges :: "int list \<Rightarrow> (int \<times> int) list" where
  "line_ranges added =
     map (\<lambda>group. let groups = map snd group in (hd groups, last groups))
       (groupby index_minus_value (enumerate 0 added))"

text \<open>
  \<^verbatim>\<open>added_lines\<close> of one file: the target line numbers of its added lines, as
  the nested loops append them.
\<close>

definition added_lines :: "patched_file \<Rightarrow> int option list" where
  "added_lines f = map target_line_no (filter is_added (file_lines f))"

text \<open>
  The grouping key subtracts the line number from the index, which raises a
  \<^verbatim>\<open>TypeError\<close> on \<^verbatim>\<open>None\<close>; the exception leaves \<^verbatim>\<open>get_line_ranges\<close>, so
  the model checks the numbers before it groups them.
\<close>

fun line_numbers :: "int option list \<Rightarrow> error + int list" where
  "line_numbers [] = Inr []"
| "line_numbers (None # ns) = Inl TypeError"
| "line_numbers (Some n # ns) =
     (case line_numbers ns of Inl e \<Rightarrow> Inl e | Inr ms \<Rightarrow> Inr (n # ms))"

definition file_ranges :: "patched_file \<Rightarrow> error + (int \<times> int) list" where
  "file_ranges f =
     (case line_numbers (added_lines f) of
        Inl e \<Rightarrow> Inl e
      | Inr added \<Rightarrow> Inr (line_ranges added))"

text \<open>
  \<^verbatim>\<open>lines_by_file\<close> is a dictionary that keeps insertion order: an association
  list with one pair per name. \<^verbatim>\<open>lines_by_file.setdefault(name, []).append(r)\<close>
  appends to the entry of the name, or adds the entry at the end.
\<close>

type_synonym ranges_by_file = "(string \<times> (int \<times> int) list) list"

fun setdefault_append :: "string \<Rightarrow> int \<times> int \<Rightarrow> ranges_by_file \<Rightarrow> ranges_by_file" where
  "setdefault_append name r [] = [(name, [r])]"
| "setdefault_append name r ((n, rs) # rest) =
     (if n = name then (n, rs @ [r]) # rest
      else (n, rs) # setdefault_append name r rest)"

text \<open>The loop over the files of the diff.\<close>

fun lines_by_file :: "diff \<Rightarrow> ranges_by_file \<Rightarrow> error + ranges_by_file" where
  "lines_by_file [] acc = Inr acc"
| "lines_by_file (f # fs) acc =
     (case file_ranges f of
        Inl e \<Rightarrow> Inl e
      | Inr rs \<Rightarrow>
          lines_by_file fs (foldl (\<lambda>a r. setdefault_append (filename f) r a) acc rs))"

text \<open>
  \<^verbatim>\<open>get_line_ranges\<close> up to its records \<^verbatim>\<open>{"name": name, "lines": lines}\<close>, one
  per entry of \<^verbatim>\<open>lines_by_file\<close> in order. The source returns them rendered
  (\<^verbatim>\<open>str\<close> of each record, then \<^verbatim>\<open>json.dumps\<close> of the list); the rendering is not
  part of the model.
\<close>

definition get_line_ranges :: "diff \<Rightarrow> error + ranges_by_file" where
  "get_line_ranges d = lines_by_file d []"

section \<open>Python strings and paths\<close>

text \<open>
  A Python string is modelled as a \<^typ>\<open>string\<close>, one character per code point, for
  code points below 256. The functions below are the string and path operations
  of the standard library that \<^verbatim>\<open>make_review\<close> calls.
\<close>

definition newline :: char where
  "newline = CHR 0x0A"

text \<open>\<^verbatim>\<open>s.startswith(prefix)\<close> and \<^verbatim>\<open>sub in s\<close>.\<close>

fun startswith :: "string \<Rightarrow> string \<Rightarrow> bool" where
  "startswith s [] = True"
| "startswith [] (c # p) = False"
| "startswith (x # s) (c # p) = (x = c \<and> startswith s p)"

fun contains :: "string \<Rightarrow> string \<Rightarrow> bool" where
  "contains [] sub = (sub = [])"
| "contains (x # s) sub = (startswith (x # s) sub \<or> contains s sub)"

text \<open>\<^verbatim>\<open>s.split(sep, maxsplit)\<close> for a separator of one character.\<close>

fun py_split :: "char \<Rightarrow> nat \<Rightarrow> string \<Rightarrow> string list" where
  "py_split sep 0 s = [s]"
| "py_split sep (Suc k) s =
     (if sep \<in> set s
      then takeWhile (\<lambda>c. c \<noteq> sep) s
             # py_split sep k (drop 1 (dropWhile (\<lambda>c. c \<noteq> sep) s))
      else [s])"

text \<open>\<^verbatim>\<open>s.split(sep)\<close>: no bound on the number of splits.\<close>

definition split_all :: "char \<Rightarrow> string \<Rightarrow> string list" where
  "split_all sep s = py_split sep (length s) s"

text \<open>\<^verbatim>\<open>sep.join(parts)\<close>.\<close>

fun join :: "string \<Rightarrow> string list \<Rightarrow> string" where
  "join sep [] = []"
| "join sep [x] = x"
| "join sep (x # y # ys) = x @ sep @ join sep (y # ys)"

text \<open>
  \<^verbatim>\<open>s.replace(old, new)\<close>: every occurrence of \<^verbatim>\<open>old\<close>, found from the left without
  overlap; an empty \<^verbatim>\<open>old\<close> matches before every character and at the end.
\<close>

function replace :: "string \<Rightarrow> string \<Rightarrow> string \<Rightarrow> string" where
  "replace [] old new = (if old = [] then new else [])"
| "replace (c # s) old new =
     (if old = [] then new @ c # replace s old new
      else if startswith (c # s) old then new @ replace (drop (length old) (c # s)) old new
      else c # replace s old new)"
  by pat_completeness auto
termination
  by (relation "measure (\<lambda>(s, old, new). length s)") auto

text \<open>
  \<^verbatim>\<open>str.isspace\<close> on one character, for code points below 256: tab to carriage
  return, the four separators 28 to 31, the space, NEL and the no-break space.
\<close>

definition isspace :: "char \<Rightarrow> bool" where
  "isspace c =
     (let n = (of_char c :: nat)
      in (9 \<le> n \<and> n \<le> 13) \<or> (28 \<le> n \<and> n \<le> 32) \<or> n = 133 \<or> n = 160)"

text \<open>\<^verbatim>\<open>s.strip()\<close>.\<close>

definition strip :: "string \<Rightarrow> string" where
  "strip s = rev (dropWhile isspace (rev (dropWhile isspace s)))"

text \<open>
  \<^verbatim>\<open>int(s)\<close> in base 10: surrounding whitespace, an optional sign, then digits
  with single underscores allowed between digits; anything else is a
  \<^verbatim>\<open>ValueError\<close>. (The limit that later Python versions put on the number of
  digits is not modelled.)
\<close>

definition is_digit :: "char \<Rightarrow> bool" where
  "is_digit c = (let n = (of_char c :: nat) in 48 \<le> n \<and> n \<le> 57)"

fun digits_ok :: "string \<Rightarrow> bool" where
  "digits_ok [] = False"
| "digits_ok [c] = is_digit c"
| "digits_ok (c # d # cs) =
     (is_digit c \<and> (if d = CHR ''_'' then digits_ok cs else digits_ok (d # cs)))"

definition digits_value :: "string \<Rightarrow> int" where
  "digits_value s =
     foldl (\<lambda>acc c. 10 * acc + (of_char c - 48)) 0 (filter (\<lambda>c. c \<noteq> CHR ''_'') s)"

definition py_int :: "string \<Rightarrow> error + int" where
  "py_int s =
     (let t = strip s;
          negative = (t \<noteq> [] \<and> hd t = CHR ''-'');
          signed = (t \<noteq> [] \<and> (hd t = CHR ''-'' \<or> hd t = CHR ''+''));
          ds = (if signed then tl t else t)
      in if digits_ok ds
         then Inr (if negative then - digits_value ds else digits_value ds)
         else Inl (ValueError (InvalidIntLiteral s)))"

subsection \<open>posixpath\<close>

text \<open>\<^verbatim>\<open>os.path.join(a, b)\<close>.\<close>

definition path_join :: "string \<Rightarrow> string \<Rightarrow> string" where
  "path_join a b =
     (if startswith b ''/'' then b
      else if a = [] \<or> last a = CHR ''/'' then a @ b
      else a @ ''/'' @ b)"

text \<open>
  The loop of \<^verbatim>\<open>os.path.normpath\<close> over the components: empty ones and \<^verbatim>\<open>.\<close> are
  dropped, \<^verbatim>\<open>..\<close> removes the component before it where there is one to remove.
\<close>

fun normpath_comps :: "bool \<Rightarrow> string list \<Rightarrow> string list \<Rightarrow> string list" where
  "normpath_comps initial_slashes [] new_comps = new_comps"
| "normpath_comps initial_slashes (cmp # comps) new_comps =
     normpath_comps initial_slashes comps
       (if cmp = [] \<or> cmp = ''.'' then new_comps
        else if cmp \<noteq> ''..'' \<or> (\<not> initial_slashes \<and> new_comps = [])
                \<or> (new_comps \<noteq> [] \<and> last new_comps = ''..'')
        then new_comps @ [cmp]
        else if new_comps \<noteq> [] then butlast new_comps
        else new_comps)"

definition normpath :: "string \<Rightarrow> string" where
  "normpath path =
     (if path = [] then ''.''
      else
        let initial_slashes =
              (if startswith path ''/''
               then if startswith path ''//'' \<and> \<not> startswith path ''///'' then 2 else 1
               else 0 :: nat);
            comps = normpath_comps (0 < initial_slashes) (split_all CHR ''/'' path) [];
            path' = replicate initial_slashes CHR ''/'' @ join ''/'' comps
        in if path' = [] then ''.'' else path')"

text \<open>\<^verbatim>\<open>os.path.abspath(path)\<close> in a process whose working directory is \<open>cwd\<close>.\<close>

definition abspath :: "string \<Rightarrow> string \<Rightarrow> string" where
  "abspath cwd path = normpath (if startswith path ''/'' then path else path_join cwd path)"

text \<open>
  The length \<^verbatim>\<open>relpath\<close> takes from \<^verbatim>\<open>commonprefix\<close> of two lists: that of their
  longest common prefix.
\<close>

fun common_prefix :: "'a list \<Rightarrow> 'a list \<Rightarrow> 'a list" where
  "common_prefix (x # xs) (y # ys) = (if x = y then x # common_prefix xs ys else [])"
| "common_prefix xs ys = []"

text \<open>
  \<^verbatim>\<open>os.path.relpath(path, start)\<close> in a process whose working directory is
  \<open>cwd\<close>; an empty path is a \<^verbatim>\<open>ValueError\<close>.
\<close>

definition relpath :: "string \<Rightarrow> string \<Rightarrow> string \<Rightarrow> error + string" where
  "relpath cwd path start =
     (if path = [] then Inl (ValueError NoPathSpecified)
      else
        let start_list = filter (\<lambda>x. x \<noteq> []) (split_all CHR ''/'' (abspath cwd start));
            path_list = filter (\<lambda>x. x \<noteq> []) (split_all CHR ''/'' (abspath cwd path));
            i = length (common_prefix start_list path_list);
            rel_list = replicate (length start_list - i) ''..'' @ drop i path_list
        in Inr (if rel_list = [] then ''.'' else join ''/'' rel_list))"

subsection \<open>textwrap.dedent\<close>

text \<open>
  \<^verbatim>\<open>textwrap.dedent\<close>, line by line as its regular expressions work: a line of
  spaces and tabs only becomes empty; the margin is the longest common prefix of
  the leading spaces and tabs of the other non-empty lines; the margin is removed
  from the start of every line that has it.
\<close>

definition blank :: "char \<Rightarrow> bool" where
  "blank c = (c = CHR '' '' \<or> c = CHR 0x09)"

definition whitespace_only :: "string \<Rightarrow> bool" where
  "whitespace_only l = (l \<noteq> [] \<and> list_all blank l)"

fun margin_step :: "string option \<Rightarrow> string \<Rightarrow> string option" where
  "margin_step None indent = Some indent"
| "margin_step (Some margin) indent =
     (if startswith indent margin then Some margin
      else if startswith margin indent then Some indent
      else Some (common_prefix margin indent))"

definition dedent :: "string \<Rightarrow> string" where
  "dedent text =
     (let lines = map (\<lambda>l. if whitespace_only l then [] else l) (split_all newline text);
          indents = map (takeWhile blank) (filter (\<lambda>l. l \<noteq> []) lines);
          margin = foldl margin_step None indents
      in case margin of
           None \<Rightarrow> join [newline] lines
         | Some m \<Rightarrow>
             if m = [] then join [newline] lines
             else join [newline]
                    (map (\<lambda>l. if startswith l m then drop (length m) l else l) lines))"

section \<open>make_review\<close>

text \<open>
  A comment already posted on the pull request, of which \<^verbatim>\<open>post_review\<close> reads
  the attributes \<^verbatim>\<open>path\<close>, \<^verbatim>\<open>position\<close> and \<^verbatim>\<open>body\<close>. (It stands before the
  records of the review, whose field names then need no qualifier.)
\<close>

record pull_request_comment =
  path :: string
  position :: int
  body :: string

text \<open>A comment of the review, and the review \<^verbatim>\<open>make_review\<close> returns.\<close>

record review_comment =
  path :: string
  body :: string
  position :: int

record review =
  body :: string
  event :: string
  comments :: "review_comment list"

text \<open>
  The inner loop: the lines after the record's first line, up to the next line
  that contains \<^verbatim>\<open>warning\<close>, each after a line break and with the full path
  replaced by the relative one.
\<close>

fun collect_body :: "string \<Rightarrow> string \<Rightarrow> string list \<Rightarrow> string" where
  "collect_body full_path rel_path [] = []"
| "collect_body full_path rel_path (line2 # rest) =
     (if contains line2 ''warning'' then []
      else newline # replace line2 full_path rel_path @ collect_body full_path rel_path rest)"

text \<open>The text of a comment, as the formatted string literal builds it.\<close>

definition comment_body :: "string \<Rightarrow> string \<Rightarrow> string" where
  "comment_body warning body_lines =
     replace (strip warning) [CHR 0x27] ''`''
       @ [newline, newline] @ ''```cpp'' @ [newline]
       @ strip (dedent body_lines) @ [newline] @ ''```'' @ [newline]"

text \<open>
  One record: the line at index \<^verbatim>\<open>num\<close> and the lines after it. \<open>root\<close> is what
  \<^verbatim>\<open>os.getcwd()\<close> returns. The errors come in the order the source raises them:
  unpacking the split, \<^verbatim>\<open>relpath\<close>, then in
  \<^verbatim>\<open>lookup[rel_path][int(source_line)]\<close> the outer key, \<^verbatim>\<open>int\<close>, the inner key.
\<close>

definition make_comment ::
  "string \<Rightarrow> lookup_table \<Rightarrow> string \<Rightarrow> string list \<Rightarrow> error + review_comment" where
  "make_comment root lookup line rest =
     (case py_split CHR '':'' 3 line of
        [full_path, source_line, column, warning] \<Rightarrow>
          (case relpath root full_path root of
             Inl e \<Rightarrow> Inl e
           | Inr rel_path \<Rightarrow>
               (case lookup rel_path of
                  None \<Rightarrow> Inl (KeyError (PathKey rel_path))
                | Some table \<Rightarrow>
                    (case py_int source_line of
                       Inl e \<Rightarrow> Inl e
                     | Inr n \<Rightarrow>
                         (case table (Some n) of
                            None \<Rightarrow> Inl (KeyError (LineKey n))
                          | Some pos \<Rightarrow>
                              Inr \<lparr>path = rel_path,
                                   body = comment_body warning
                                            (collect_body full_path rel_path rest),
                                   position = pos\<rparr>))))
      | parts \<Rightarrow> Inl (ValueError (NotEnoughValues (length parts))))"

text \<open>The loop over the lines; an exception ends it.\<close>

fun make_comments ::
  "string \<Rightarrow> lookup_table \<Rightarrow> string list \<Rightarrow> error + review_comment list" where
  "make_comments root lookup [] = Inr []"
| "make_comments root lookup (line # rest) =
     (if contains line ''warning''
      then if startswith line ''warning''
           then make_comments root lookup rest
           else (case make_comment root lookup line rest of
                   Inl e \<Rightarrow> Inl e
                 | Inr c \<Rightarrow>
                     (case make_comments root lookup rest of
                        Inl e \<Rightarrow> Inl e
                      | Inr cs \<Rightarrow> Inr (c # cs)))
      else make_comments root lookup rest)"

definition make_review :: "string \<Rightarrow> string list \<Rightarrow> lookup_table \<Rightarrow> error + review" where
  "make_review root contents lookup =
     (case make_comments root lookup contents of
        Inl e \<Rightarrow> Inl e
      | Inr cs \<Rightarrow>
          Inr \<lparr>body = ''clang-tidy made some suggestions'', event = ''COMMENT'',
               comments = cs\<rparr>)"

section \<open>post_review\<close>

text \<open>
  The pull request as \<^verbatim>\<open>post_review\<close> uses it: the comments
  \<^verbatim>\<open>get_review_comments()\<close> returns, and the reviews \<^verbatim>\<open>create_review\<close> was called
  with.
\<close>

record pull_request =
  review_comments :: "pull_request_comment list"
  created_reviews :: "review list"

text \<open>One round of the loop: the review without the comments equal to \<open>comment\<close>.\<close>

definition filter_posted :: "review \<Rightarrow> pull_request_comment \<Rightarrow> review" where
  "filter_posted review comment =
     review\<lparr>comments :=
       filter
         (\<lambda>review_comment.
            \<not> (review_comment.path review_comment = pull_request_comment.path comment
               \<and> review_comment.position review_comment = pull_request_comment.position comment
               \<and> review_comment.body review_comment = pull_request_comment.body comment))
         (comments review)\<rparr>"

text \<open>\<^verbatim>\<open>for comment in comments: review["comments"] = list(filter(...))\<close>\<close>

definition deduplicate :: "pull_request_comment list \<Rightarrow> review \<Rightarrow> review" where
  "deduplicate posted review = foldl filter_posted review posted"

text \<open>
  \<^verbatim>\<open>post_review\<close>: the pull request afterwards, the review as the loop leaves it,
  and the number printed as \<^verbatim>\<open>total_comments\<close>. With no comment left the
  function returns before \<^verbatim>\<open>create_review\<close>.
\<close>

definition post_review :: "pull_request \<Rightarrow> review \<Rightarrow> pull_request \<times> review \<times> nat" where
  "post_review pull_request review =
     (let review' = deduplicate (review_comments pull_request) review;
          total_comments = length (comments review')
      in if comments review' = [] then (pull_request, review', total_comments)
         else (pull_request\<lparr>created_reviews := created_reviews pull_request @ [review']\<rparr>,
               review', total_comments))"

section \<open>Notions of the properties\<close>

text \<open>
  The lines of a file that are present in the after-file: context and added ones.
\<close>

definition kept_lines :: "patched_file \<Rightarrow> line list" where
  "kept_lines f = filter (\<lambda>l. \<not> is_removed l) (file_lines f)"

text \<open>
  The invariants of a parsed file that the spec's data model states: the target
  line number is populated for context and added lines only, and no target line
  number occurs twice among the lines of the after-file (in a valid diff they
  appear in increasing line order).
\<close>

definition valid_file :: "patched_file \<Rightarrow> bool" where
  "valid_file f \<longleftrightarrow>
     list_all (\<lambda>l. is_removed l \<longleftrightarrow> target_line_no l = None) (file_lines f) \<and>
     distinct (map target_line_no (kept_lines f))"

text \<open>
  The target path is unique within a diff. Files without a line in the
  after-file are exempt: every deleted file has the target \<^verbatim>\<open>/dev/null\<close>, and a
  diff may delete several.
\<close>

fun unique_targets :: "diff \<Rightarrow> bool" where
  "unique_targets [] = True"
| "unique_targets (f # fs) =
     (list_all (\<lambda>g. filename g = filename f \<longrightarrow> kept_lines f = [] \<and> kept_lines g = []) fs
      \<and> unique_targets fs)"

definition valid_diff :: "diff \<Rightarrow> bool" where
  "valid_diff d \<longleftrightarrow> unique_targets d \<and> list_all valid_file d"

text \<open>A range ends at least two before a later one starts: they are apart and not adjacent.\<close>

definition gap :: "int \<times> int \<Rightarrow> int \<times> int \<Rightarrow> bool" where
  "gap r s \<longleftrightarrow> snd r + 1 < fst s"

text \<open>
  A line that starts a record: it contains the marker and does not begin with it.
\<close>

definition is_record :: "string \<Rightarrow> bool" where
  "is_record line = (contains line ''warning'' \<and> \<not> startswith line ''warning'')"





text \<open>
  The triples that deduplication compares: path, position and body of a posted
  comment and of a comment of the review.
\<close>

definition posted_key :: "pull_request_comment \<Rightarrow> string \<times> int \<times> string" where
  "posted_key comment =
     (pull_request_comment.path comment, pull_request_comment.position comment,
      pull_request_comment.body comment)"

definition comment_key :: "review_comment \<Rightarrow> string \<times> int \<times> string" where
  "comment_key c = (review_comment.path c, review_comment.position c, review_comment.body c)"

section \<open>Functions of the proofs\<close>

text \<open>
  The rest of the run of consecutive integers that starts at \<open>x\<close>, and what
  follows the run.
\<close>

fun run_take :: "int \<Rightarrow> int list \<Rightarrow> int list" where
  "run_take x [] = []"
| "run_take x (y # ys) = (if y = x + 1 then y # run_take y ys else [])"

fun run_drop :: "int \<Rightarrow> int list \<Rightarrow> int list" where
  "run_drop x [] = []"
| "run_drop x (y # ys) = (if y = x + 1 then run_drop y ys else y # ys)"

text \<open>The same grouping with the enumeration starting at any index.\<close>

definition ranges_from :: "nat \<Rightarrow> int list \<Rightarrow> (int \<times> int) list" where
  "ranges_from n added =
     map (\<lambda>group. let groups = map snd group in (hd groups, last groups))
       (groupby index_minus_value (enumerate n added))"

text \<open>
  The record a file contributes when no other file with added lines has its name.
\<close>

definition entry :: "patched_file \<Rightarrow> ranges_by_file" where
  "entry f =
     (case file_ranges f of
        Inl e \<Rightarrow> []
      | Inr rs \<Rightarrow> if rs = [] then [] else [(filename f, rs)])"

section \<open>Examples\<close>

text \<open>
  A file \<^verbatim>\<open>b/foo.cpp\<close> with one hunk: a context line, a removed line and two
  added lines (diff line numbers 6 to 9); and two deleted files, whose target is
  \<^verbatim>\<open>/dev/null\<close>.
\<close>

definition example_hunk :: hunk where
  "example_hunk =
     [\<lparr>kind = Context, target_line_no = Some 10, diff_line_no = 6\<rparr>,
      \<lparr>kind = Removed, target_line_no = None, diff_line_no = 7\<rparr>,
      \<lparr>kind = Added, target_line_no = Some 11, diff_line_no = 8\<rparr>,
      \<lparr>kind = Added, target_line_no = Some 12, diff_line_no = 9\<rparr>]"

definition example_file :: patched_file where
  "example_file = \<lparr>target_file = ''b/foo.cpp'', hunks = [example_hunk]\<rparr>"

definition deleted_file :: "int \<Rightarrow> patched_file" where
  "deleted_file n =
     \<lparr>target_file = ''/dev/null'',
      hunks = [[\<lparr>kind = Removed, target_line_no = None, diff_line_no = n\<rparr>]]\<rparr>"

text \<open>
  An example file with two hunks whose added lines are 10, 11, 12, 15, 16 and 20.
\<close>

definition ranges_example_file :: patched_file where
  "ranges_example_file =
     \<lparr>target_file = ''b/src/foo.cpp'',
      hunks =
        [[\<lparr>kind = Context, target_line_no = Some 9, diff_line_no = 6\<rparr>,
          \<lparr>kind = Added, target_line_no = Some 10, diff_line_no = 7\<rparr>,
          \<lparr>kind = Added, target_line_no = Some 11, diff_line_no = 8\<rparr>,
          \<lparr>kind = Added, target_line_no = Some 12, diff_line_no = 9\<rparr>,
          \<lparr>kind = Context, target_line_no = Some 13, diff_line_no = 10\<rparr>,
          \<lparr>kind = Context, target_line_no = Some 14, diff_line_no = 11\<rparr>,
          \<lparr>kind = Added, target_line_no = Some 15, diff_line_no = 12\<rparr>,
          \<lparr>kind = Added, target_line_no = Some 16, diff_line_no = 13\<rparr>,
          \<lparr>kind = Context, target_line_no = Some 17, diff_line_no = 14\<rparr>],
         [\<lparr>kind = Context, target_line_no = Some 19, diff_line_no = 16\<rparr>,
          \<lparr>kind = Removed, target_line_no = None, diff_line_no = 17\<rparr>,
          \<lparr>kind = Added, target_line_no = Some 20, diff_line_no = 18\<rparr>,
          \<lparr>kind = Context, target_line_no = Some 21, diff_line_no = 19\<rparr>]]\<rparr>"

text \<open>
  A working directory, a lookup table for \<^verbatim>\<open>foo.cpp\<close> and diagnostic lines: a
  record with two context lines, a record whose line the table lacks, a record
  with a single colon, a warning without a path, and a second record.
\<close>

definition ex_root :: string where
  "ex_root = ''/abs/path''"

definition ex_lookup :: lookup_table where
  "ex_lookup = [''foo.cpp'' \<mapsto> [Some 42 \<mapsto> 10, Some 50 \<mapsto> 18]]"

definition warning_record :: string where
  "warning_record =
     ''/abs/path/foo.cpp:42:7: warning: unused variable '' @ [CHR 0x27] @ ''x'' @ [CHR 0x27]"

definition warning_lines :: "string list" where
  "warning_lines = [warning_record, ''  int x = 0;'', ''      ^'']"



definition pathless_line :: string where
  "pathless_line = ''warning: unknown warning option''"

definition second_record :: string where
  "second_record = ''/abs/path/foo.cpp:50:3: warning: unused variable y''"

text \<open>
  The comment of the first record at position \<open>p\<close>, and that of the second.
\<close>

definition warning_comment :: "int \<Rightarrow> review_comment" where
  "warning_comment p =
     \<lparr>path = ''foo.cpp'',
      body = ''warning: unused variable `x`\<newline>\<newline>```cpp\<newline>int x = 0;\<newline>    ^\<newline>```\<newline>'',
      position = p\<rparr>"

definition second_comment :: review_comment where
  "second_comment =
     \<lparr>path = ''foo.cpp'',
      body = ''warning: unused variable y\<newline>\<newline>```cpp\<newline>\<newline>```\<newline>'',
      position = 18\<rparr>"

text \<open>
  Posted comments equal to those two, a review that holds the first one twice,
  and a pull request where both are posted.
\<close>

definition posted_warning :: pull_request_comment where
  "posted_warning =
     \<lparr>pull_request_comment.path = ''foo.cpp'', pull_request_comment.position = 10,
      pull_request_comment.body = review_comment.body (warning_comment 10)\<rparr>"

definition posted_other :: pull_request_comment where
  "posted_other =
     \<lparr>pull_request_comment.path = ''foo.cpp'', pull_request_comment.position = 18,
      pull_request_comment.body = review_comment.body second_comment\<rparr>"

definition ex_review :: review where
  "ex_review =
     \<lparr>body = ''clang-tidy made some suggestions'', event = ''COMMENT'',
      comments = [warning_comment 10, second_comment, warning_comment 10]\<rparr>"

definition ex_pull_request :: pull_request where
  "ex_pull_request = \<lparr>review_comments = [posted_other, posted_warning], created_reviews = []\<rparr>"

section \<open>Properties of make_file_line_lookup\<close>

lemma lookup_hunk_append:
  "lookup_hunk (xs @ ys) t = lookup_hunk ys (lookup_hunk xs t)"
  by (induction xs arbitrary: t) simp_all

lemma lookup_file_concat: "lookup_file hs t = lookup_hunk (concat hs) t"
  by (induction hs arbitrary: t) (simp_all add: lookup_hunk_append)

lemma lookup_hunk_other:
  "k \<notin> target_line_no ` set (filter (\<lambda>l. \<not> is_removed l) ls) \<Longrightarrow> lookup_hunk ls t k = t k"
  by (induction ls arbitrary: t) auto

lemma lookup_hunk_kept:
  assumes "distinct (map target_line_no (filter (\<lambda>l. \<not> is_removed l) ls))"
    and "l \<in> set ls" and "\<not> is_removed l"
  shows "lookup_hunk ls t (target_line_no l) = Some (diff_line_no l - DIFF_HEADER_LINE_LENGTH)"
  using assms
proof (induction ls arbitrary: t)
  case Nil
  then show ?case by simp
next
  case (Cons a ls)
  show ?case
  proof (cases "l \<in> set ls")
    case True
    with Cons show ?thesis by (simp split: if_splits)
  next
    case False
    with Cons.prems have la: "l = a" by simp
    from Cons.prems la
    have "target_line_no a \<notin> target_line_no ` set (filter (\<lambda>l. \<not> is_removed l) ls)"
      by simp
    then show ?thesis
      using Cons.prems la by (simp add: lookup_hunk_other)
  qed
qed

lemma lookup_hunk_origin:
  "lookup_hunk ls t k = Some v \<Longrightarrow>
     (\<exists>l \<in> set ls. \<not> is_removed l \<and> target_line_no l = k
        \<and> v = diff_line_no l - DIFF_HEADER_LINE_LENGTH) \<or> t k = Some v"
proof (induction ls arbitrary: t)
  case Nil
  then show ?case by simp
next
  case (Cons a ls)
  from Cons.IH [OF Cons.prems [simplified]] show ?case
    by (auto split: if_splits)
qed

lemma lookup_hunk_kept_only:
  "lookup_hunk ls t = lookup_hunk (filter (\<lambda>l. \<not> is_removed l) ls) t"
  by (induction ls arbitrary: t) simp_all

lemma lookup_diff_other:
  "p \<notin> filename ` set fs \<Longrightarrow> lookup_diff fs lk p = lk p"
  by (induction fs arbitrary: lk) auto

lemma lookup_diff_some:
  "f \<in> set fs \<Longrightarrow>
     \<exists>g \<in> set fs. filename g = filename f
       \<and> lookup_diff fs lk (filename f) = Some (lookup_file (hunks g) Map.empty)"
proof (induction fs arbitrary: lk f)
  case Nil
  then show ?case by simp
next
  case (Cons a fs)
  show ?case
  proof (cases "filename f \<in> filename ` set fs")
    case True
    then obtain f' where f': "f' \<in> set fs" "filename f' = filename f" by auto
    from Cons.IH [OF f'(1), of "lk(filename a \<mapsto> lookup_file (hunks a) Map.empty)"]
    obtain g where g: "g \<in> set fs" "filename g = filename f'"
      and t: "lookup_diff fs (lk(filename a \<mapsto> lookup_file (hunks a) Map.empty)) (filename f')
          = Some (lookup_file (hunks g) Map.empty)"
      by blast
    have "g \<in> set (a # fs)" using g(1) by simp
    moreover have "filename g = filename f" using g(2) f'(2) by simp
    moreover have "lookup_diff (a # fs) lk (filename f) = Some (lookup_file (hunks g) Map.empty)"
      using t f'(2) by simp
    ultimately show ?thesis by blast
  next
    case False
    with Cons.prems have "f = a" by auto
    with False show ?thesis by (simp add: lookup_diff_other)
  qed
qed

lemma unique_targets_same:
  "unique_targets d \<Longrightarrow> f \<in> set d \<Longrightarrow> g \<in> set d \<Longrightarrow> filename g = filename f
     \<Longrightarrow> kept_lines g = kept_lines f"
proof (induction d)
  case Nil
  then show ?case by simp
next
  case (Cons a d)
  then show ?case by (auto simp: list_all_iff)
qed

lemma lookup_diff_valid:
  assumes "unique_targets d" and "f \<in> set d"
  shows "make_file_line_lookup d (filename f) = Some (lookup_hunk (file_lines f) Map.empty)"
proof -
  from lookup_diff_some [OF assms(2), of Map.empty] obtain g where
    g: "g \<in> set d" "filename g = filename f"
    and t: "lookup_diff d Map.empty (filename f) = Some (lookup_file (hunks g) Map.empty)"
    by blast
  have "kept_lines g = kept_lines f"
    by (rule unique_targets_same [OF assms g])
  then have "lookup_hunk (file_lines g) Map.empty = lookup_hunk (file_lines f) Map.empty"
    using lookup_hunk_kept_only [of "file_lines g"] lookup_hunk_kept_only [of "file_lines f"]
    by (simp add: kept_lines_def)
  with t show ?thesis
    by (simp add: make_file_line_lookup_def lookup_file_concat file_lines_def)
qed

text \<open>
  C1 (lookup completeness). For a parsed diff (with the data model's
  invariants) and a file of it, \<^const>\<open>make_file_line_lookup\<close> has a table under
  the file's name in which every context or added line has an entry under its
  target line number, equal to its diff line number minus 5 (the value of
  \<^const>\<open>DIFF_HEADER_LINE_LENGTH\<close>); no removed line has an entry: the key of a
  removed line is absent, and every entry of the table stems from a line that
  is not removed.
\<close>

theorem make_file_line_lookup_complete:
  assumes "valid_diff d" and "f \<in> set d"
  shows "\<exists>t. make_file_line_lookup d (filename f) = Some t
    \<and> (\<forall>l \<in> set (file_lines f). kind l \<in> {Context, Added} \<longrightarrow>
          t (target_line_no l) = Some (diff_line_no l - 5))
    \<and> (\<forall>l \<in> set (file_lines f). kind l = Removed \<longrightarrow> t (target_line_no l) = None)
    \<and> (\<forall>k v. t k = Some v \<longrightarrow>
          (\<exists>l \<in> set (file_lines f). kind l \<noteq> Removed \<and> target_line_no l = k
             \<and> v = diff_line_no l - 5))"
proof -
  let ?t = "lookup_hunk (file_lines f) Map.empty"
  from assms have ut: "unique_targets d" and vf: "valid_file f"
    by (auto simp: valid_diff_def list_all_iff)
  from vf have pop: "\<And>l. l \<in> set (file_lines f) \<Longrightarrow> is_removed l \<longleftrightarrow> target_line_no l = None"
    and dk: "distinct (map target_line_no (filter (\<lambda>l. \<not> is_removed l) (file_lines f)))"
    by (auto simp: valid_file_def kept_lines_def list_all_iff)
  have tab: "make_file_line_lookup d (filename f) = Some ?t"
    by (rule lookup_diff_valid [OF ut assms(2)])
  have kept: "\<forall>l \<in> set (file_lines f). kind l \<in> {Context, Added} \<longrightarrow>
      ?t (target_line_no l) = Some (diff_line_no l - 5)"
  proof (intro ballI impI)
    fix l assume l: "l \<in> set (file_lines f)" and k: "kind l \<in> {Context, Added}"
    from k have "\<not> is_removed l" by (auto simp: is_removed_def)
    from lookup_hunk_kept [OF dk l this]
    show "?t (target_line_no l) = Some (diff_line_no l - 5)"
      by (simp add: DIFF_HEADER_LINE_LENGTH_def)
  qed
  have removed: "\<forall>l \<in> set (file_lines f). kind l = Removed \<longrightarrow> ?t (target_line_no l) = None"
  proof (intro ballI impI)
    fix l assume l: "l \<in> set (file_lines f)" and k: "kind l = Removed"
    from k pop [OF l] have n: "target_line_no l = None" by (simp add: is_removed_def)
    have "None \<notin> target_line_no ` set (filter (\<lambda>l. \<not> is_removed l) (file_lines f))"
      using pop by force
    from lookup_hunk_other [OF this] n show "?t (target_line_no l) = None" by simp
  qed
  have origin: "\<forall>k v. ?t k = Some v \<longrightarrow>
      (\<exists>l \<in> set (file_lines f). kind l \<noteq> Removed \<and> target_line_no l = k
         \<and> v = diff_line_no l - 5)"
  proof (intro allI impI)
    fix k v assume "?t k = Some v"
    from lookup_hunk_origin [OF this]
    show "\<exists>l \<in> set (file_lines f). kind l \<noteq> Removed \<and> target_line_no l = k
         \<and> v = diff_line_no l - 5"
      by (auto simp: is_removed_def DIFF_HEADER_LINE_LENGTH_def)
  qed
  from tab kept removed origin show ?thesis by blast
qed

theorem make_file_line_lookup_complete_witness:
  "valid_diff [deleted_file 6, example_file, deleted_file 7]
   \<and> (\<exists>t. make_file_line_lookup [deleted_file 6, example_file, deleted_file 7] ''foo.cpp''
            = Some t
      \<and> t (Some 10) = Some 1 \<and> t (Some 11) = Some 3 \<and> t (Some 12) = Some 4
      \<and> t None = None)"
proof -
  have v: "valid_diff [deleted_file 6, example_file, deleted_file 7]"
    by (simp add: valid_diff_def valid_file_def kept_lines_def file_lines_def filename_def
        example_file_def example_hunk_def deleted_file_def is_removed_def)
  have m: "example_file \<in> set [deleted_file 6, example_file, deleted_file 7]" by simp
  have n: "filename example_file = ''foo.cpp''"
    by (simp add: filename_def example_file_def)
  from make_file_line_lookup_complete [OF v m] obtain t where
    t: "make_file_line_lookup [deleted_file 6, example_file, deleted_file 7]
          (filename example_file) = Some t"
    and k: "\<forall>l \<in> set (file_lines example_file). kind l \<in> {Context, Added} \<longrightarrow>
          t (target_line_no l) = Some (diff_line_no l - 5)"
    and r: "\<forall>l \<in> set (file_lines example_file). kind l = Removed \<longrightarrow> t (target_line_no l) = None"
    by blast
  from k have "t (Some 10) = Some 1" "t (Some 11) = Some 3" "t (Some 12) = Some 4"
    by (simp_all add: file_lines_def example_file_def example_hunk_def)
  moreover from r have "t None = None"
    by (simp add: file_lines_def example_file_def example_hunk_def)
  ultimately show ?thesis using v t n by simp
qed

section \<open>Properties of get_line_ranges\<close>

lemma run_take_drop: "run_take x xs @ run_drop x xs = xs"
  by (induction xs arbitrary: x) auto

lemma takeWhile_enumerate:
  "takeWhile (\<lambda>p. index_minus_value p = int n - x) (enumerate (Suc n) xs)
     = enumerate (Suc n) (run_take x xs)"
proof (induction xs arbitrary: n x)
  case Nil
  show ?case by simp
next
  case (Cons y ys)
  show ?case
  proof (cases "y = x + 1")
    case True
    then have k: "int (Suc n) - y = int n - x" by simp
    have key: "index_minus_value (Suc n, x + 1) = int n - x"
      by (simp add: index_minus_value_def)
    show ?thesis
      using Cons.IH [of "Suc n" y] unfolding k
      by (simp add: key True)
  next
    case False
    then show ?thesis by (simp add: index_minus_value_def)
  qed
qed

lemma dropWhile_enumerate:
  "dropWhile (\<lambda>p. index_minus_value p = int n - x) (enumerate (Suc n) xs)
     = enumerate (Suc n + length (run_take x xs)) (run_drop x xs)"
proof (induction xs arbitrary: n x)
  case Nil
  show ?case by simp
next
  case (Cons y ys)
  show ?case
  proof (cases "y = x + 1")
    case True
    then have k: "int (Suc n) - y = int n - x" by simp
    have key: "index_minus_value (Suc n, x + 1) = int n - x"
      by (simp add: index_minus_value_def)
    show ?thesis
      using Cons.IH [of "Suc n" y] unfolding k
      by (simp add: key True)
  next
    case False
    then show ?thesis by (simp add: index_minus_value_def)
  qed
qed

lemma groupby_enumerate:
  "groupby index_minus_value (enumerate n (x # xs)) =
     enumerate n (x # run_take x xs)
       # groupby index_minus_value (enumerate (Suc n + length (run_take x xs)) (run_drop x xs))"
proof -
  have k: "index_minus_value (n, x) = int n - x"
    by (simp add: index_minus_value_def)
  show ?thesis
    by (simp add: k takeWhile_enumerate dropWhile_enumerate)
qed

lemma ranges_from_Nil: "ranges_from n [] = []"
  by (simp add: ranges_from_def)

lemma ranges_from_Cons:
  "ranges_from n (x # xs) =
     (x, last (x # run_take x xs))
       # ranges_from (Suc n + length (run_take x xs)) (run_drop x xs)"
  unfolding ranges_from_def groupby_enumerate
  by (simp add: Let_def del: enumerate_simps)

lemma length_run_drop: "length (run_drop x xs) \<le> length xs"
  by (induction xs arbitrary: x) (auto intro: le_SucI)

lemma run_take_set: "set (x # run_take x xs) = {x .. last (x # run_take x xs)}"
proof (induction xs arbitrary: x)
  case Nil
  show ?case by simp
next
  case (Cons y ys)
  show ?case
  proof (cases "y = x + 1")
    case True
    have le: "y \<le> last (y # run_take y ys)"
      using Cons.IH [of y] by (metis atLeastAtMost_iff list.set_intros(1))
    have "set (x # run_take x (y # ys)) = insert x (set (y # run_take y ys))"
      using True by simp
    also have "\<dots> = insert x {y .. last (y # run_take y ys)}"
      using Cons.IH [of y] by simp
    also have "\<dots> = {x .. last (y # run_take y ys)}"
      using True le by auto
    finally show ?thesis using True by simp
  next
    case False
    then show ?thesis by simp
  qed
qed

lemma run_take_le: "x \<le> last (x # run_take x xs)"
  using run_take_set [of x xs] by (metis atLeastAtMost_iff list.set_intros(1))

lemma run_drop_gap:
  "sorted_wrt (<) (x # xs) \<Longrightarrow> \<forall>z \<in> set (run_drop x xs). last (x # run_take x xs) + 1 < z"
proof (induction xs arbitrary: x)
  case Nil
  show ?case by simp
next
  case (Cons y ys)
  show ?case
  proof (cases "y = x + 1")
    case True
    from Cons.prems have "sorted_wrt (<) (y # ys)" by simp
    from Cons.IH [OF this] True show ?thesis by simp
  next
    case False
    with Cons.prems show ?thesis by fastforce
  qed
qed

lemma run_drop_sorted: "sorted_wrt (<) xs \<Longrightarrow> sorted_wrt (<) (run_drop x xs)"
  by (metis run_take_drop sorted_wrt_append)

lemma ranges_from_union: "(\<Union>(a, b) \<in> set (ranges_from n xs). {a..b}) = set xs"
proof (induction "length xs" arbitrary: xs n rule: less_induct)
  case less
  show ?case
  proof (cases xs)
    case Nil
    then show ?thesis by (simp add: ranges_from_Nil)
  next
    case (Cons x ys)
    have "length (run_drop x ys) < length xs"
      using length_run_drop [of x ys] Cons by simp
    from less [OF this]
    have ih: "(\<Union>(a, b) \<in> set (ranges_from (Suc n + length (run_take x ys)) (run_drop x ys)). {a..b})
        = set (run_drop x ys)" .
    define e where "e = last (x # run_take x ys)"
    have split: "set xs = set (x # run_take x ys) \<union> set (run_drop x ys)"
      using run_take_drop [of x ys] Cons by (metis list.simps(15) set_append Un_insert_left)
    have run: "set (x # run_take x ys) = {x..e}"
      unfolding e_def by (rule run_take_set)
    have "ranges_from n xs = (x, e) # ranges_from (Suc n + length (run_take x ys)) (run_drop x ys)"
      unfolding Cons ranges_from_Cons e_def ..
    then have "(\<Union>(a, b) \<in> set (ranges_from n xs). {a..b}) = {x..e} \<union> set (run_drop x ys)"
      using ih by simp
    also have "\<dots> = set (x # run_take x ys) \<union> set (run_drop x ys)"
      unfolding run ..
    also have "\<dots> = set xs" unfolding split ..
    finally show ?thesis .
  qed
qed

lemma ranges_from_le: "\<forall>(a, b) \<in> set (ranges_from n xs). a \<le> b"
proof (induction "length xs" arbitrary: xs n rule: less_induct)
  case less
  show ?case
  proof (cases xs)
    case Nil
    then show ?thesis by (simp add: ranges_from_Nil)
  next
    case (Cons x ys)
    have "length (run_drop x ys) < length xs"
      using length_run_drop [of x ys] Cons by simp
    from less [OF this]
    have ih: "\<forall>(a, b) \<in> set (ranges_from (Suc n + length (run_take x ys)) (run_drop x ys)). a \<le> b" .
    show ?thesis
      unfolding Cons ranges_from_Cons using ih run_take_le [of x ys] by simp
  qed
qed

lemma ranges_from_starts: "fst ` set (ranges_from n xs) \<subseteq> set xs"
proof (induction "length xs" arbitrary: xs n rule: less_induct)
  case less
  show ?case
  proof (cases xs)
    case Nil
    then show ?thesis by (simp add: ranges_from_Nil)
  next
    case (Cons x ys)
    have "length (run_drop x ys) < length xs"
      using length_run_drop [of x ys] Cons by simp
    from less [OF this]
    have ih: "fst ` set (ranges_from (Suc n + length (run_take x ys)) (run_drop x ys))
        \<subseteq> set (run_drop x ys)" .
    have "set (run_drop x ys) \<subseteq> set ys"
      using run_take_drop [of x ys] by (metis set_append Un_upper2)
    with ih show ?thesis
      unfolding Cons ranges_from_Cons by auto
  qed
qed

lemma ranges_from_gap: "sorted_wrt (<) xs \<Longrightarrow> sorted_wrt gap (ranges_from n xs)"
proof (induction "length xs" arbitrary: xs n rule: less_induct)
  case less
  show ?case
  proof (cases xs)
    case Nil
    then show ?thesis by (simp add: ranges_from_Nil)
  next
    case (Cons x ys)
    let ?rest = "ranges_from (Suc n + length (run_take x ys)) (run_drop x ys)"
    have "length (run_drop x ys) < length xs"
      using length_run_drop [of x ys] Cons by simp
    moreover have "sorted_wrt (<) (run_drop x ys)"
      using less.prems Cons run_drop_sorted [of ys x] by simp
    ultimately have ih: "sorted_wrt gap ?rest" by (rule less.hyps)
    define e where "e = last (x # run_take x ys)"
    have far: "\<forall>z \<in> set (run_drop x ys). e + 1 < z"
      unfolding e_def using less.prems Cons by (intro run_drop_gap) simp
    have "\<forall>s \<in> set ?rest. e + 1 < fst s"
    proof
      fix s assume "s \<in> set ?rest"
      then have "fst s \<in> set (run_drop x ys)"
        using ranges_from_starts [of "Suc n + length (run_take x ys)" "run_drop x ys"] by blast
      with far show "e + 1 < fst s" by blast
    qed
    moreover have "ranges_from n xs = (x, e) # ?rest"
      unfolding Cons ranges_from_Cons e_def ..
    ultimately show ?thesis using ih by (simp add: gap_def)
  qed
qed

lemma line_ranges_from: "line_ranges xs = ranges_from 0 xs"
  by (simp add: line_ranges_def ranges_from_def)

lemma setdefault_append_fresh:
  "name \<notin> fst ` set acc \<Longrightarrow> setdefault_append name r acc = acc @ [(name, [r])]"
  by (induction acc) auto

lemma setdefault_append_last:
  "name \<notin> fst ` set acc \<Longrightarrow>
     setdefault_append name r (acc @ [(name, rs)]) = acc @ [(name, rs @ [r])]"
  by (induction acc) auto

lemma foldl_setdefault_last:
  "name \<notin> fst ` set acc \<Longrightarrow>
     foldl (\<lambda>a r. setdefault_append name r a) (acc @ [(name, rs0)]) rs
       = acc @ [(name, rs0 @ rs)]"
  by (induction rs arbitrary: rs0) (simp_all add: setdefault_append_last)

lemma foldl_setdefault_fresh:
  assumes "name \<notin> fst ` set acc"
  shows "foldl (\<lambda>a r. setdefault_append name r a) acc rs
       = acc @ (if rs = [] then [] else [(name, rs)])"
proof (cases rs)
  case Nil
  then show ?thesis by simp
next
  case (Cons r rs')
  show ?thesis
    using foldl_setdefault_last [OF assms, of "[r]" rs']
    by (simp add: Cons setdefault_append_fresh [OF assms])
qed

lemma entry_names: "fst ` set (entry f) \<subseteq> {filename f}"
  by (auto simp: entry_def split: sum.splits if_splits)

lemma entry_kept: "entry f \<noteq> [] \<Longrightarrow> kept_lines f \<noteq> []"
proof -
  assume "entry f \<noteq> []"
  then obtain ns where ns: "line_numbers (added_lines f) = Inr ns" and "line_ranges ns \<noteq> []"
    by (auto simp: entry_def file_ranges_def split: sum.splits if_splits)
  then have "ns \<noteq> []" by (auto simp: line_ranges_from ranges_from_Nil)
  with ns have "added_lines f \<noteq> []" by auto
  then obtain l where "l \<in> set (file_lines f)" "is_added l"
    by (auto simp: added_lines_def filter_empty_conv)
  then have "l \<in> set (kept_lines f)"
    by (auto simp: kept_lines_def is_added_def is_removed_def)
  then show ?thesis by auto
qed

lemma lines_by_file_entries:
  assumes "unique_targets fs"
    and "\<forall>f \<in> set fs. entry f \<noteq> [] \<longrightarrow> filename f \<notin> fst ` set acc"
    and "\<forall>f \<in> set fs. \<exists>rs. file_ranges f = Inr rs"
  shows "lines_by_file fs acc = Inr (acc @ concat (map entry fs))"
  using assms
proof (induction fs arbitrary: acc)
  case Nil
  then show ?case by simp
next
  case (Cons f fs)
  from Cons.prems(3) obtain rs where rs: "file_ranges f = Inr rs" by auto
  let ?acc = "acc @ entry f"
  have step: "foldl (\<lambda>a r. setdefault_append (filename f) r a) acc rs = ?acc"
  proof (cases "rs = []")
    case True
    then show ?thesis by (simp add: entry_def rs)
  next
    case False
    then have "entry f \<noteq> []" by (simp add: entry_def rs)
    with Cons.prems(2) have "filename f \<notin> fst ` set acc" by simp
    from foldl_setdefault_fresh [OF this, of rs] show ?thesis by (simp add: entry_def rs)
  qed
  have u: "unique_targets fs" using Cons.prems(1) by simp
  have c: "\<forall>g \<in> set fs. entry g \<noteq> [] \<longrightarrow> filename g \<notin> fst ` set ?acc"
  proof (intro ballI impI)
    fix g assume g: "g \<in> set fs" and e: "entry g \<noteq> []"
    from g e Cons.prems(2) have a: "filename g \<notin> fst ` set acc" by simp
    have "filename g \<notin> fst ` set (entry f)"
    proof
      assume "filename g \<in> fst ` set (entry f)"
      with entry_names [of f] have same: "filename g = filename f" and "entry f \<noteq> []" by auto
      from Cons.prems(1) g same have "kept_lines g = []" by (auto simp: list_all_iff)
      with entry_kept [OF e] show False by simp
    qed
    with a show "filename g \<notin> fst ` set ?acc" by (simp add: image_Un)
  qed
  have e: "\<forall>f \<in> set fs. \<exists>rs. file_ranges f = Inr rs" using Cons.prems(3) by simp
  have "lines_by_file fs ?acc = Inr (?acc @ concat (map entry fs))"
    by (rule Cons.IH [OF u c e])
  then show ?case by (simp add: rs step)
qed

lemma filter_entries_none:
  "\<forall>g \<in> set fs. filename g = n \<longrightarrow> entry g = [] \<Longrightarrow>
     filter (\<lambda>e. fst e = n) (concat (map entry fs)) = []"
proof (induction fs)
  case Nil
  then show ?case by simp
next
  case (Cons a fs)
  have "filter (\<lambda>e. fst e = n) (entry a) = []"
    using Cons.prems entry_names [of a] by (cases "filename a = n") (auto simp: filter_empty_conv)
  with Cons show ?case by simp
qed

lemma filter_entries_unique:
  assumes "unique_targets fs" and "f \<in> set fs"
  shows "filter (\<lambda>e. fst e = filename f) (concat (map entry fs)) = entry f"
  using assms
proof (induction fs)
  case Nil
  then show ?case by simp
next
  case (Cons g fs)
  have own: "\<And>h. filter (\<lambda>e. fst e = filename h) (entry h) = entry h"
    by (auto simp: entry_def split: sum.splits)
  have other: "\<And>h k. filename h \<noteq> filename k \<Longrightarrow> filter (\<lambda>e. fst e = filename k) (entry h) = []"
    by (auto simp: entry_def split: sum.splits)
  have u: "unique_targets fs" using Cons.prems(1) by simp
  have empty: "\<And>h. kept_lines h = [] \<Longrightarrow> entry h = []"
    using entry_kept by blast
  show ?case
  proof (cases "filename g = filename f")
    case False
    with Cons.prems have "f \<in> set fs" by auto
    from Cons.IH [OF u this] False show ?thesis by (simp add: other)
  next
    case True
    show ?thesis
    proof (cases "f \<in> set fs")
      case in_rest: True
      with Cons.prems(1) True have "kept_lines g = []" "kept_lines f = []"
        by (auto simp: list_all_iff)
      then have "entry g = []" "entry f = []" by (simp_all add: empty)
      with Cons.IH [OF u in_rest] show ?thesis by simp
    next
      case False
      with Cons.prems(2) have fg: "f = g" by simp
      have "\<forall>h \<in> set fs. filename h = filename g \<longrightarrow> entry h = []"
        using Cons.prems(1) by (auto simp: list_all_iff empty)
      from filter_entries_none [OF this] show ?thesis by (simp add: fg own)
    qed
  qed
qed

lemma line_numbers_ok:
  "None \<notin> set ns \<Longrightarrow> \<exists>ms. line_numbers ns = Inr ms \<and> map Some ms = ns"
proof (induction ns)
  case Nil
  then show ?case by simp
next
  case (Cons a ns)
  then show ?case by (cases a) auto
qed

lemma valid_file_ranges:
  assumes "valid_file f"
  shows "\<exists>ns. line_numbers (added_lines f) = Inr ns \<and> map Some ns = added_lines f
     \<and> file_ranges f = Inr (line_ranges ns)"
proof -
  from assms have "None \<notin> set (added_lines f)"
    by (auto simp: valid_file_def added_lines_def list_all_iff is_added_def is_removed_def)
  from line_numbers_ok [OF this] show ?thesis
    by (auto simp: file_ranges_def)
qed

text \<open>
  C2 (range grouping). For a parsed diff (with the data model's invariants) and
  a file of it, \<^const>\<open>get_line_ranges\<close> returns records among which the file has
  none when it has no added line and exactly one otherwise; the union of that
  record's ranges is exactly the set of the file's added line numbers, every
  range has its start at most its end, and, the added line numbers being in
  increasing order as in a valid diff, every range ends at least two before each
  later range starts (so the ranges are ascending, disjoint and never adjacent).
  Added lines 10, 11, 12, 15, 16, 20 give the ranges (10,12), (15,16), (20,20).
\<close>

theorem get_line_ranges_correct:
  assumes "valid_diff d" and "f \<in> set d"
  shows "(\<exists>res ns rs. get_line_ranges d = Inr res
      \<and> map Some ns = added_lines f
      \<and> filter (\<lambda>e. fst e = filename f) res = (if ns = [] then [] else [(filename f, rs)])
      \<and> (\<Union>(a, b) \<in> set rs. {a..b}) = set ns
      \<and> (\<forall>(a, b) \<in> set rs. a \<le> b)
      \<and> (sorted_wrt (<) ns \<longrightarrow> sorted_wrt gap rs))
    \<and> line_ranges [10, 11, 12, 15, 16, 20] = [(10, 12), (15, 16), (20, 20)]"
proof
  from assms have ut: "unique_targets d" and all: "\<forall>g \<in> set d. valid_file g"
    by (auto simp: valid_diff_def list_all_iff)
  from all have ok: "\<forall>g \<in> set d. \<exists>rs. file_ranges g = Inr rs"
    using valid_file_ranges by blast
  have "\<forall>g \<in> set d. entry g \<noteq> [] \<longrightarrow> filename g \<notin> fst ` set ([] :: ranges_by_file)"
    by simp
  from lines_by_file_entries [OF ut this ok]
  have res: "get_line_ranges d = Inr (concat (map entry d))"
    by (simp add: get_line_ranges_def)
  from all assms(2) valid_file_ranges [of f] obtain ns where
    ns: "map Some ns = added_lines f" and fr: "file_ranges f = Inr (line_ranges ns)"
    by blast
  have empty: "ns = [] \<longleftrightarrow> line_ranges ns = []"
    using ranges_from_union [of 0 ns] by (auto simp: line_ranges_from ranges_from_Nil)
  have "filter (\<lambda>e. fst e = filename f) (concat (map entry d))
      = (if ns = [] then [] else [(filename f, line_ranges ns)])"
    using filter_entries_unique [OF ut assms(2)] empty by (simp add: entry_def fr)
  with res ns show "\<exists>res ns rs. get_line_ranges d = Inr res
      \<and> map Some ns = added_lines f
      \<and> filter (\<lambda>e. fst e = filename f) res = (if ns = [] then [] else [(filename f, rs)])
      \<and> (\<Union>(a, b) \<in> set rs. {a..b}) = set ns
      \<and> (\<forall>(a, b) \<in> set rs. a \<le> b)
      \<and> (sorted_wrt (<) ns \<longrightarrow> sorted_wrt gap rs)"
    using ranges_from_union [of 0 ns] ranges_from_le [of 0 ns] ranges_from_gap [of ns 0]
    unfolding line_ranges_from [symmetric] by blast
next
  show "line_ranges [10, 11, 12, 15, 16, 20] = [(10, 12), (15, 16), (20, 20)]"
    by (simp add: line_ranges_from ranges_from_Cons ranges_from_Nil)
qed

theorem get_line_ranges_correct_witness:
  "valid_diff [deleted_file 6, ranges_example_file, deleted_file 7]
   \<and> (\<exists>res rs. get_line_ranges [deleted_file 6, ranges_example_file, deleted_file 7] = Inr res
      \<and> filter (\<lambda>e. fst e = ''src/foo.cpp'') res = [(''src/foo.cpp'', rs)]
      \<and> (\<Union>(a, b) \<in> set rs. {a..b}) = {10, 11, 12, 15, 16, 20}
      \<and> sorted_wrt gap rs)"
proof -
  have v: "valid_diff [deleted_file 6, ranges_example_file, deleted_file 7]"
    by (simp add: valid_diff_def valid_file_def kept_lines_def file_lines_def filename_def
        ranges_example_file_def deleted_file_def is_removed_def)
  have m: "ranges_example_file \<in> set [deleted_file 6, ranges_example_file, deleted_file 7]"
    by simp
  have n: "filename ranges_example_file = ''src/foo.cpp''"
    by (simp add: filename_def ranges_example_file_def)
  have a: "added_lines ranges_example_file = map Some [10, 11, 12, 15, 16, 20]"
    by (simp add: added_lines_def file_lines_def ranges_example_file_def is_added_def)
  from get_line_ranges_correct [OF v m] obtain res ns rs where
    res: "get_line_ranges [deleted_file 6, ranges_example_file, deleted_file 7] = Inr res"
    and ns: "map Some ns = added_lines ranges_example_file"
    and f: "filter (\<lambda>e. fst e = filename ranges_example_file) res
        = (if ns = [] then [] else [(filename ranges_example_file, rs)])"
    and u: "(\<Union>(a, b) \<in> set rs. {a..b}) = set ns"
    and g: "sorted_wrt (<) ns \<longrightarrow> sorted_wrt gap rs"
    by blast
  from ns a have ns': "ns = [10, 11, 12, 15, 16, 20]"
    by (metis list.inj_map_strong option.inject)
  from f u g show ?thesis
    unfolding n ns' using v res by simp
qed

section \<open>Properties of make_review\<close>


lemma startswith_contains: "startswith s p \<Longrightarrow> contains s p"
  by (cases s) (auto elim: startswith.elims)









lemma collect_body_cut:
  "contains w ''warning'' \<Longrightarrow>
     collect_body fp rp (xs @ w # post) = collect_body fp rp (xs @ [w])"
  by (induction xs) simp_all

lemma make_comment_cong:
  assumes "\<And>fp rp. collect_body fp rp rest = collect_body fp rp rest'"
  shows "make_comment root lookup line rest = make_comment root lookup line rest'"
  unfolding make_comment_def
  by (simp add: assms split: list.splits sum.splits option.splits)

lemma make_comments_skip_split:
  assumes "startswith w ''warning''"
  shows "make_comments root lookup (pre @ w # post) =
     (case make_comments root lookup (pre @ [w]) of
        Inl e \<Rightarrow> Inl e
      | Inr cs \<Rightarrow>
          (case make_comments root lookup post of
             Inl e \<Rightarrow> Inl e
           | Inr cs' \<Rightarrow> Inr (cs @ cs')))"
proof -
  from assms have w: "contains w ''warning''" by (rule startswith_contains)
  show ?thesis
  proof (induction pre)
    case Nil
    show ?case using assms w by (simp split: sum.splits)
  next
    case (Cons a pre)
    have "make_comment root lookup a (pre @ w # post) = make_comment root lookup a (pre @ [w])"
      by (rule make_comment_cong) (rule collect_body_cut [OF w])
    then show ?case
      by (simp add: Cons.IH split: sum.splits)
  qed
qed

text \<open>
  C6 (skip without path). A line that begins with \<^verbatim>\<open>warning\<close> gives no comment
  and does not end the run: \<^const>\<open>make_review\<close> on the line followed by more
  lines is \<^const>\<open>make_review\<close> on those lines; and with lines before it, the
  result is that of the lines up to it followed by that of the lines after it,
  so every record after it yields its comment as it would alone.
\<close>

theorem make_review_skips_without_path:
  assumes "startswith w ''warning''"
  shows "make_review root (w # post) lookup = make_review root post lookup
    \<and> make_review root (pre @ w # post) lookup =
        (case make_review root (pre @ [w]) lookup of
           Inl e \<Rightarrow> Inl e
         | Inr r1 \<Rightarrow>
             (case make_review root post lookup of
                Inl e \<Rightarrow> Inl e
              | Inr r2 \<Rightarrow> Inr (r1\<lparr>comments := comments r1 @ comments r2\<rparr>)))"
proof
  from assms have w: "contains w ''warning''" by (rule startswith_contains)
  show "make_review root (w # post) lookup = make_review root post lookup"
    using assms w by (simp add: make_review_def)
  show "make_review root (pre @ w # post) lookup =
        (case make_review root (pre @ [w]) lookup of
           Inl e \<Rightarrow> Inl e
         | Inr r1 \<Rightarrow>
             (case make_review root post lookup of
                Inl e \<Rightarrow> Inl e
              | Inr r2 \<Rightarrow> Inr (r1\<lparr>comments := comments r1 @ comments r2\<rparr>)))"
    unfolding make_review_def make_comments_skip_split [OF assms, of root lookup pre post]
    by (simp split: sum.splits)
qed

theorem make_review_skips_without_path_witness:
  "startswith pathless_line ''warning''
   \<and> make_review ex_root (pathless_line # [second_record]) ex_lookup
       = make_review ex_root [second_record] ex_lookup
   \<and> make_review ex_root (warning_lines @ pathless_line # [second_record])
         ex_lookup
       = Inr \<lparr>body = ''clang-tidy made some suggestions'', event = ''COMMENT'',
              comments = [warning_comment 10, second_comment]\<rparr>"
proof -
  have h: "startswith pathless_line ''warning''" by code_simp
  have a: "make_review ex_root (warning_lines @ [pathless_line]) ex_lookup
      = Inr \<lparr>body = ''clang-tidy made some suggestions'', event = ''COMMENT'',
             comments = [warning_comment 10]\<rparr>"
    by code_simp
  have b: "make_review ex_root [second_record] ex_lookup
      = Inr \<lparr>body = ''clang-tidy made some suggestions'', event = ''COMMENT'',
             comments = [second_comment]\<rparr>"
    by code_simp
  note t = make_review_skips_without_path [OF h,
      of ex_root "[second_record]" ex_lookup "warning_lines"]
  from t have "make_review ex_root
        (warning_lines @ pathless_line # [second_record]) ex_lookup
      = Inr \<lparr>body = ''clang-tidy made some suggestions'', event = ''COMMENT'',
             comments = [warning_comment 10, second_comment]\<rparr>"
    unfolding a b by simp
  with t h show ?thesis by blast
qed






text \<open>
  C9 as stated fails for \<^const>\<open>make_review\<close>: with the same lines and the same
  lookup table, two working directories give two different reviews.
\<close>

theorem make_review_working_directory_counterexample:
  "make_review ''/abs/path'' [''/abs/path/foo.cpp:42:7: warning: unused variable x'']
       [''foo.cpp'' \<mapsto> [Some 42 \<mapsto> 10], ''../path/foo.cpp'' \<mapsto> [Some 42 \<mapsto> 11]]
   \<noteq> make_review ''/abs/other'' [''/abs/path/foo.cpp:42:7: warning: unused variable x'']
       [''foo.cpp'' \<mapsto> [Some 42 \<mapsto> 10], ''../path/foo.cpp'' \<mapsto> [Some 42 \<mapsto> 11]]"
  by code_simp

lemma make_comment_root:
  assumes "relpath r1 (hd (py_split CHR '':'' 3 line)) r1
         = relpath r2 (hd (py_split CHR '':'' 3 line)) r2"
  shows "make_comment r1 lookup line rest = make_comment r2 lookup line rest"
  using assms unfolding make_comment_def
  by (auto split: list.splits)

text \<open>
  C9 (purity), as amended. \<^const>\<open>make_file_line_lookup\<close> and
  \<^const>\<open>get_line_ranges\<close> are functions of the parsed diff alone.
  \<^const>\<open>make_review\<close> is a function of its two arguments and of the working
  directory of the process, which enters only through the root-relative form of
  the path of each record: two working directories under which these forms agree
  give the same result (so does, in particular, one working directory twice).
\<close>

theorem make_review_working_directory:
  assumes "\<forall>line \<in> set contents. is_record line \<longrightarrow>
      relpath r1 (hd (py_split CHR '':'' 3 line)) r1
        = relpath r2 (hd (py_split CHR '':'' 3 line)) r2"
  shows "make_review r1 contents lookup = make_review r2 contents lookup"
proof -
  have "make_comments r1 lookup contents = make_comments r2 lookup contents"
    using assms
  proof (induction contents)
    case Nil
    show ?case by simp
  next
    case (Cons a contents)
    then have ih: "make_comments r1 lookup contents = make_comments r2 lookup contents"
      by simp
    show ?case
    proof (cases "is_record a")
      case True
      with Cons.prems have "make_comment r1 lookup a contents = make_comment r2 lookup a contents"
        by (intro make_comment_root) simp
      with ih show ?thesis by (simp split: sum.splits)
    next
      case False
      with ih show ?thesis by (auto simp: is_record_def)
    qed
  qed
  then show ?thesis by (simp add: make_review_def)
qed

theorem make_review_working_directory_witness:
  "relpath ''/abs/path'' ''foo.cpp'' ''/abs/path'' = relpath ''/abs/other'' ''foo.cpp'' ''/abs/other''
   \<and> make_review ''/abs/path'' [''foo.cpp:42:7: warning: unused variable x'', ''  int x;''] ex_lookup
     = make_review ''/abs/other'' [''foo.cpp:42:7: warning: unused variable x'', ''  int x;''] ex_lookup
   \<and> make_review ''/abs/other'' [''foo.cpp:42:7: warning: unused variable x'', ''  int x;''] ex_lookup
     = Inr \<lparr>body = ''clang-tidy made some suggestions'', event = ''COMMENT'',
            comments =
              [\<lparr>path = ''foo.cpp'',
                body = ''warning: unused variable x\<newline>\<newline>```cpp\<newline>int x;\<newline>```\<newline>'',
                position = 10\<rparr>]\<rparr>"
proof -
  have r: "relpath ''/abs/path'' ''foo.cpp'' ''/abs/path''
      = relpath ''/abs/other'' ''foo.cpp'' ''/abs/other''"
    by code_simp
  have p: "hd (py_split CHR '':'' 3 ''foo.cpp:42:7: warning: unused variable x'') = ''foo.cpp''"
    by code_simp
  have n: "\<not> is_record ''  int x;''" by code_simp
  have h: "\<forall>line \<in> set [''foo.cpp:42:7: warning: unused variable x'', ''  int x;''].
      is_record line \<longrightarrow>
      relpath ''/abs/path'' (hd (py_split CHR '':'' 3 line)) ''/abs/path''
        = relpath ''/abs/other'' (hd (py_split CHR '':'' 3 line)) ''/abs/other''"
    using r p n by simp
  have v: "make_review ''/abs/other'' [''foo.cpp:42:7: warning: unused variable x'', ''  int x;''] ex_lookup
     = Inr \<lparr>body = ''clang-tidy made some suggestions'', event = ''COMMENT'',
            comments =
              [\<lparr>path = ''foo.cpp'',
                body = ''warning: unused variable x\<newline>\<newline>```cpp\<newline>int x;\<newline>```\<newline>'',
                position = 10\<rparr>]\<rparr>"
    by code_simp
  from make_review_working_directory [OF h, of ex_lookup] r v show ?thesis by blast
qed

section \<open>Properties of post_review\<close>

lemma filter_posted_comments:
  "comments (filter_posted review comment)
     = filter (\<lambda>c. comment_key c \<noteq> posted_key comment) (comments review)"
  by (simp add: filter_posted_def comment_key_def posted_key_def)

lemma filter_posted_fields:
  "review.body (filter_posted review comment) = review.body review"
  "event (filter_posted review comment) = event review"
  by (simp_all add: filter_posted_def)

lemma deduplicate_comments:
  "comments (deduplicate posted review)
     = filter (\<lambda>c. comment_key c \<notin> posted_key ` set posted) (comments review)"
  unfolding deduplicate_def
proof (induction posted arbitrary: review)
  case Nil
  show ?case by simp
next
  case (Cons a posted)
  have "filter (\<lambda>c. comment_key c \<notin> posted_key ` set posted)
          (filter (\<lambda>c. comment_key c \<noteq> posted_key a) (comments review))
        = filter (\<lambda>c. comment_key c \<notin> posted_key ` set (a # posted)) (comments review)"
    by (induction "comments review") auto
  then show ?case
    by (simp add: Cons.IH filter_posted_comments del: filter_filter)
qed

lemma deduplicate_fields:
  "review.body (deduplicate posted review) = review.body review
   \<and> event (deduplicate posted review) = event review"
  unfolding deduplicate_def
  by (induction posted arbitrary: review) (simp_all add: filter_posted_fields)

text \<open>
  C5 (deduplication). The loop of \<^verbatim>\<open>post_review\<close> leaves in the review exactly
  the comments whose triple of path, position and body is that of no posted
  comment, in their order in the review, and changes nothing else of the review.
\<close>

theorem deduplicate_set_difference:
  "comments (deduplicate posted review)
     = filter (\<lambda>c. comment_key c \<notin> posted_key ` set posted) (comments review)
   \<and> review.body (deduplicate posted review) = review.body review
   \<and> event (deduplicate posted review) = event review"
  using deduplicate_comments deduplicate_fields by simp

text \<open>
  C8 (idempotence). When the triple of every comment of the review is that of a
  posted comment, the loop leaves no comment, \<^const>\<open>post_review\<close> reports 0
  comments and does not call \<^verbatim>\<open>create_review\<close>: the pull request is unchanged.
\<close>

theorem post_review_idempotent:
  assumes "\<forall>c \<in> set (comments review).
             \<exists>r \<in> set (review_comments pull_request). comment_key c = posted_key r"
  shows "comments (deduplicate (review_comments pull_request) review) = []
    \<and> post_review pull_request review
        = (pull_request, review\<lparr>comments := []\<rparr>, 0)"
proof -
  have "\<forall>c \<in> set (comments review). comment_key c \<in> posted_key ` set (review_comments pull_request)"
    using assms by auto
  then have e: "comments (deduplicate (review_comments pull_request) review) = []"
    by (simp add: deduplicate_comments filter_empty_conv)
  have "deduplicate (review_comments pull_request) review = review\<lparr>comments := []\<rparr>"
    using e deduplicate_fields [of "review_comments pull_request" review]
    by (intro review.equality) simp_all
  with e show ?thesis by (simp add: post_review_def)
qed

theorem post_review_idempotent_witness:
  "list_all (\<lambda>c. list_ex (\<lambda>r. comment_key c = posted_key r) (review_comments ex_pull_request))
     (comments ex_review)
   \<and> post_review ex_pull_request ex_review = (ex_pull_request, ex_review\<lparr>comments := []\<rparr>, 0)"
proof -
  have h: "\<forall>c \<in> set (comments ex_review).
      \<exists>r \<in> set (review_comments ex_pull_request). comment_key c = posted_key r"
    by (simp add: ex_review_def ex_pull_request_def comment_key_def posted_key_def
        posted_warning_def posted_other_def warning_comment_def second_comment_def)
  from post_review_idempotent [OF h] h show ?thesis
    by (simp add: list_all_iff list_ex_iff)
qed

section \<open>Duplicates within a review\<close>






end
